theory Spec2Isabelle
  imports Main "HOL-Library.Word"
begin

section \<open>Strings of the host language\<close>

text \<open>
  A string of the source language is a finite sequence of 16-bit code units. Source
  literals are written \<open>js ''...''\<close>: each character of the literal is one code unit.
\<close>

type_synonym jschar = "16 word"
type_synonym jsstring = "jschar list"

definition js :: "string \<Rightarrow> jsstring" where
  "js s = map of_char s"

text \<open>\<open>s[i]\<close>: the one-unit string at index \<open>i\<close>, or \<open>undefined\<close> (here \<open>None\<close>).\<close>

definition charAt :: "jsstring \<Rightarrow> nat \<Rightarrow> jsstring option" where
  "charAt s i = (if i < length s then Some [s ! i] else None)"

text \<open>\<open>xs[i]\<close> on an array: the element, or \<open>undefined\<close> (here \<open>None\<close>).\<close>

definition at :: "'a list \<Rightarrow> nat \<Rightarrow> 'a option" where
  "at xs i = (if i < length xs then Some (xs ! i) else None)"

text \<open>A value interpolated into a template literal; \<open>undefined\<close> prints as its name.\<close>

definition template :: "jsstring option \<Rightarrow> jsstring" where
  "template v = (case v of None \<Rightarrow> js ''undefined'' | Some s \<Rightarrow> s)"

definition startsWith :: "jsstring \<Rightarrow> jsstring \<Rightarrow> bool" where
  "startsWith s p = (take (length p) s = p)"

text \<open>
  \<open>s.split(sep)\<close> for a separator of one code unit: \<open>cur\<close> is the piece being read.
  The empty string splits into one empty piece.
\<close>

fun splitAux :: "jschar \<Rightarrow> jsstring \<Rightarrow> jsstring \<Rightarrow> jsstring list" where
  "splitAux sep cur [] = [cur]"
| "splitAux sep cur (c # cs) =
     (if c = sep then cur # splitAux sep [] cs else splitAux sep (cur @ [c]) cs)"

definition js_split :: "jsstring \<Rightarrow> jschar \<Rightarrow> jsstring list" where
  "js_split s sep = splitAux sep [] s"

text \<open>\<open>xs.join(sep)\<close>.\<close>

fun join :: "jsstring list \<Rightarrow> jsstring \<Rightarrow> jsstring" where
  "join [] sep = []"
| "join [x] sep = x"
| "join (x # y # ys) sep = x @ sep @ join (y # ys) sep"

text \<open>
  \<open>s.split(/&?via=/g)\<close>. The pattern never matches the empty string, so the scan
  tries a match at each position from left to right: the longer alternative
  \<open>&via=\<close> first, then \<open>via=\<close>; a match closes the current piece and the scan goes
  on behind it. The empty string splits into one empty piece.
\<close>

fun splitViaAux :: "jsstring \<Rightarrow> jsstring \<Rightarrow> jsstring list" where
  "splitViaAux cur [] = [cur]"
| "splitViaAux cur (c # cs) =
     (if startsWith (c # cs) (js ''&via='') then cur # splitViaAux [] (drop 5 (c # cs))
      else if startsWith (c # cs) (js ''via='') then cur # splitViaAux [] (drop 4 (c # cs))
      else splitViaAux (cur @ [c]) cs)"

definition splitVia :: "jsstring \<Rightarrow> jsstring list" where
  "splitVia s = splitViaAux [] s"

section \<open>Errors\<close>

text \<open>
  The code throws \<open>Error\<close> with a message; \<open>encodeURIComponent\<close> throws \<open>URIError\<close>;
  calling a method on \<open>undefined\<close> throws \<open>TypeError\<close>.
\<close>

datatype error = Error jsstring | URIError | TypeError

definition UnrecognizedSigil :: "jsstring \<Rightarrow> error" where
  "UnrecognizedSigil entity = Error (js ''Cannot encode entity: '' @ entity)"

definition NotAPermalink :: error where
  "NotAPermalink = Error (js ''Does not appear to be a permalink'')"

definition UnknownEntityType :: error where
  "UnknownEntityType = Error (js ''Unknown entity type in permalink'')"

definition MalformedRoomPermalink :: error where
  "MalformedRoomPermalink = Error (js ''Faulty room permalink'')"

section \<open>Percent-encoding\<close>

text \<open>
  \<open>encodeURIComponent\<close>: letters, digits and \<open>- _ . ! ~ * ' ( )\<close> are kept; every
  other code point is written as the percent-escaped octets of its UTF-8 form, with
  upper-case hexadecimal digits. A surrogate code unit that is not part of a pair
  throws \<open>URIError\<close>.
\<close>

definition unescapedSet :: jsstring where
  "unescapedSet =
     js ''ABCDEFGHIJKLMNOPQRSTUVWXYZabcdefghijklmnopqrstuvwxyz0123456789-_.!~*()'' @ [0x27]"

definition isUnescaped :: "jschar \<Rightarrow> bool" where
  "isUnescaped c = (c \<in> set unescapedSet)"

definition isLeadSurrogate :: "jschar \<Rightarrow> bool" where
  "isLeadSurrogate c = (0xD800 \<le> c \<and> c \<le> 0xDBFF)"

definition isTrailSurrogate :: "jschar \<Rightarrow> bool" where
  "isTrailSurrogate c = (0xDC00 \<le> c \<and> c \<le> 0xDFFF)"

definition utf8Octets :: "nat \<Rightarrow> nat list" where
  "utf8Octets cp =
     (if cp < 0x80 then [cp]
      else if cp < 0x800 then [0xC0 + cp div 64, 0x80 + cp mod 64]
      else if cp < 0x10000 then
        [0xE0 + cp div 4096, 0x80 + (cp div 64) mod 64, 0x80 + cp mod 64]
      else
        [0xF0 + cp div 262144, 0x80 + (cp div 4096) mod 64,
         0x80 + (cp div 64) mod 64, 0x80 + cp mod 64])"

definition hexDigit :: "nat \<Rightarrow> jschar" where
  "hexDigit n = (if n < 10 then of_nat (48 + n) else of_nat (55 + n))"

definition escapeOctet :: "nat \<Rightarrow> jsstring" where
  "escapeOctet b = [0x25, hexDigit (b div 16), hexDigit (b mod 16)]"

definition escapeCodePoint :: "nat \<Rightarrow> jsstring" where
  "escapeCodePoint cp = concat (map escapeOctet (utf8Octets cp))"

definition surrogatePair :: "jschar \<Rightarrow> jschar \<Rightarrow> nat" where
  "surrogatePair hi lo = (unat hi - 0xD800) * 0x400 + (unat lo - 0xDC00) + 0x10000"

fun encodeURIComponent :: "jsstring \<Rightarrow> error + jsstring" where
  "encodeURIComponent [] = Inr []"
| "encodeURIComponent (c # cs) =
     (if isUnescaped c then
        (case encodeURIComponent cs of Inl e \<Rightarrow> Inl e | Inr r \<Rightarrow> Inr (c # r))
      else if isTrailSurrogate c then Inl URIError
      else if \<not> isLeadSurrogate c then
        (case encodeURIComponent cs of Inl e \<Rightarrow> Inl e
         | Inr r \<Rightarrow> Inr (escapeCodePoint (unat c) @ r))
      else
        (case cs of
           [] \<Rightarrow> Inl URIError
         | d # ds \<Rightarrow>
             if isTrailSurrogate d then
               (case encodeURIComponent ds of Inl e \<Rightarrow> Inl e
                | Inr r \<Rightarrow> Inr (escapeCodePoint (surrogatePair c d) @ r))
             else Inl URIError))"

text \<open>\<open>xs.map(f)\<close> for an \<open>f\<close> that may throw: the first throw ends the loop.\<close>

fun mapE :: "('a \<Rightarrow> error + 'b) \<Rightarrow> 'a list \<Rightarrow> error + 'b list" where
  "mapE f [] = Inr []"
| "mapE f (x # xs) =
     (case f x of Inl e \<Rightarrow> Inl e
      | Inr y \<Rightarrow> (case mapE f xs of Inl e \<Rightarrow> Inl e | Inr ys \<Rightarrow> Inr (y # ys)))"

section \<open>The permalink parts\<close>

text \<open>
  Modelled from the spec: \<open>PermalinkParts\<close> is declared in \<open>PermalinkConstructor\<close>,
  which is not among the sources. The spec gives it as a tagged union of a user, a
  room with its server candidates, and an event of a room with its server
  candidates; \<open>forUser\<close>, \<open>forRoom\<close> and \<open>forEvent\<close> build the three variants.
\<close>

datatype PermalinkParts =
    User jsstring
  | Room jsstring "jsstring list"
  | Event jsstring jsstring "jsstring list"

definition PermalinkParts_forUser :: "jsstring \<Rightarrow> PermalinkParts" where
  "PermalinkParts_forUser userId = User userId"

definition PermalinkParts_forRoom :: "jsstring \<Rightarrow> jsstring list \<Rightarrow> PermalinkParts" where
  "PermalinkParts_forRoom roomIdOrAlias viaServers = Room roomIdOrAlias viaServers"

definition PermalinkParts_forEvent ::
  "jsstring \<Rightarrow> jsstring \<Rightarrow> jsstring list \<Rightarrow> PermalinkParts" where
  "PermalinkParts_forEvent roomId eventId viaServers = Event roomId eventId viaServers"

section \<open>MatrixSchemePermalinkConstructor\<close>

definition encodeEntity :: "jsstring \<Rightarrow> error + jsstring" where
  "encodeEntity entity =
     (if charAt entity 0 = Some (js ''!'') then Inr (js ''roomid/'' @ drop 1 entity)
      else if charAt entity 0 = Some (js ''#'') then Inr (js ''r/'' @ drop 1 entity)
      else if charAt entity 0 = Some (js ''@'') then Inr (js ''u/'' @ drop 1 entity)
      else if charAt entity 0 = Some (js ''$'') then Inr (js ''e/'' @ drop 1 entity)
      else Inl (UnrecognizedSigil entity))"

text \<open>The candidate list may be absent (\<open>None\<close>): the code tests \<open>!candidates\<close>.\<close>

definition encodeServerCandidates :: "jsstring list option \<Rightarrow> error + jsstring" where
  "encodeServerCandidates candidates =
     (case candidates of
        None \<Rightarrow> Inr []
      | Some cs \<Rightarrow>
          if length cs = 0 then Inr []
          else (case mapE encodeURIComponent cs of
                  Inl e \<Rightarrow> Inl e
                | Inr es \<Rightarrow> Inr (js ''?via='' @ join es (js ''&via=''))))"

definition forEvent :: "jsstring \<Rightarrow> jsstring \<Rightarrow> jsstring list option \<Rightarrow> error + jsstring" where
  "forEvent roomId eventId serverCandidates =
     (case encodeEntity roomId of
        Inl e \<Rightarrow> Inl e
      | Inr r \<Rightarrow>
          (case encodeEntity eventId of
             Inl e \<Rightarrow> Inl e
           | Inr ev \<Rightarrow>
               (case encodeServerCandidates serverCandidates of
                  Inl e \<Rightarrow> Inl e
                | Inr q \<Rightarrow> Inr (js ''matrix:'' @ r @ js ''/'' @ ev @ q))))"

definition forRoom :: "jsstring \<Rightarrow> jsstring list option \<Rightarrow> error + jsstring" where
  "forRoom roomIdOrAlias serverCandidates =
     (case encodeEntity roomIdOrAlias of
        Inl e \<Rightarrow> Inl e
      | Inr r \<Rightarrow>
          (case encodeServerCandidates serverCandidates of
             Inl e \<Rightarrow> Inl e
           | Inr q \<Rightarrow> Inr (js ''matrix:'' @ r @ q)))"

definition forUser :: "jsstring \<Rightarrow> error + jsstring" where
  "forUser userId =
     (case encodeEntity userId of Inl e \<Rightarrow> Inl e | Inr u \<Rightarrow> Inr (js ''matrix:'' @ u))"

definition forEntity :: "jsstring \<Rightarrow> error + jsstring" where
  "forEntity entityId =
     (case encodeEntity entityId of Inl e \<Rightarrow> Inl e | Inr u \<Rightarrow> Inr (js ''matrix:'' @ u))"

definition isPermalinkHost :: "jsstring \<Rightarrow> bool" where
  "isPermalinkHost testHost = (testHost = [])"

text \<open>
  \<open>const [id, query = ""] = s.split("?")\<close>: the first piece (printed by a template)
  and the second piece, or the empty string when there is none. Later pieces are
  not bound to anything.
\<close>

definition idAndQuery :: "jsstring \<Rightarrow> jsstring \<times> jsstring" where
  "idAndQuery s =
     (let pieces = js_split s (of_char CHR ''?'')
      in (template (at pieces 0), (case at pieces 1 of None \<Rightarrow> [] | Some q \<Rightarrow> q)))"

text \<open>\<open>query.split(/&?via=/g).filter((p) => !!p)\<close>: the non-empty pieces.\<close>

definition parseVia :: "jsstring \<Rightarrow> jsstring list" where
  "parseVia query = filter (\<lambda>p. p \<noteq> []) (splitVia query)"

definition parsePermalink :: "jsstring \<Rightarrow> error + PermalinkParts" where
  "parsePermalink fullUrl =
     (if fullUrl = [] \<or> \<not> startsWith fullUrl (js ''matrix:'') then Inl NotAPermalink
      else
        let parts = js_split (drop (length (js ''matrix:'')) fullUrl) (of_char CHR ''/'');
            identifier = at parts 0;
            entityNoSigil = at parts 1
        in
          if identifier = Some (js ''u'') then
            Inr (PermalinkParts_forUser (js ''@'' @ template entityNoSigil))
          else if identifier = Some (js ''r'') \<or> identifier = Some (js ''roomid'') then
            (let sigil = (if identifier = Some (js ''r'') then js ''#'' else js ''!'')
             in
               if length parts = 2 then
                 (case entityNoSigil of
                    None \<Rightarrow> Inl TypeError
                  | Some ens \<Rightarrow>
                      (let (roomId, query) = idAndQuery ens;
                           via = parseVia query
                       in Inr (PermalinkParts_forRoom (sigil @ roomId) via)))
               else if at parts 2 = Some (js ''e'') then
                 (let eventIdAndQuery =
                        (if length parts > 3 then join (drop 3 parts) (js ''/'') else []);
                      (eventId, query) = idAndQuery eventIdAndQuery;
                      via = parseVia query
                  in Inr (PermalinkParts_forEvent (sigil @ template entityNoSigil)
                            (js ''$'' @ eventId) via))
               else Inl MalformedRoomPermalink)
          else Inl UnknownEntityType)"

section \<open>Notions used to state the properties\<close>

text \<open>
  \<open>weave pieces seps\<close> puts the separators back between the pieces of a split:
  it is the text the pieces were cut from.
\<close>

fun weave :: "jsstring list \<Rightarrow> jsstring list \<Rightarrow> jsstring" where
  "weave [] seps = []"
| "weave (p # ps) [] = p"
| "weave (p # ps) (s # seps) = p @ s @ weave ps seps"

text \<open>
  A string is well-formed when every surrogate code unit is part of a pair, a leading
  one followed by a trailing one (\<open>isWellFormed\<close> of the host language).
\<close>

fun wellFormed :: "jsstring \<Rightarrow> bool" where
  "wellFormed [] = True"
| "wellFormed [c] = (\<not> isLeadSurrogate c \<and> \<not> isTrailSurrogate c)"
| "wellFormed (c # d # ds) =
     (if isLeadSurrogate c then isTrailSurrogate d \<and> wellFormed ds
      else \<not> isTrailSurrogate c \<and> wellFormed (d # ds))"

text \<open>
  A candidate that percent-encoding leaves as it is and that the query parser gives
  back: not empty, and made of unreserved characters only.
\<close>

definition plainCandidate :: "jsstring \<Rightarrow> bool" where
  "plainCandidate c = (c \<noteq> [] \<and> list_all isUnescaped c)"

section \<open>Properties\<close>

subsection \<open>Splitting and joining\<close>

lemma splitAux_append:
  "sep \<notin> set a \<Longrightarrow> splitAux sep cur (a @ rest) = splitAux sep (cur @ a) rest"
  by (induction a arbitrary: cur) auto

lemma splitAux_no_sep: "sep \<notin> set a \<Longrightarrow> splitAux sep cur a = [cur @ a]"
  using splitAux_append [of sep a cur "[]"] by simp

lemma js_split_no_sep: "sep \<notin> set a \<Longrightarrow> js_split a sep = [a]"
  by (simp add: js_split_def splitAux_no_sep)

lemma js_split_first:
  "sep \<notin> set a \<Longrightarrow> js_split (a @ sep # rest) sep = a # js_split rest sep"
  by (simp add: js_split_def splitAux_append)

lemma splitAux_takeWhile:
  "splitAux sep cur s =
     (cur @ takeWhile (\<lambda>c. c \<noteq> sep) s) #
       (case dropWhile (\<lambda>c. c \<noteq> sep) s of [] \<Rightarrow> [] | _ # r \<Rightarrow> splitAux sep [] r)"
  by (induction s arbitrary: cur) auto

lemma js_split_takeWhile:
  "js_split s sep =
     takeWhile (\<lambda>c. c \<noteq> sep) s #
       (case dropWhile (\<lambda>c. c \<noteq> sep) s of [] \<Rightarrow> [] | _ # r \<Rightarrow> js_split r sep)"
  unfolding js_split_def by (subst splitAux_takeWhile) simp

lemma splitAux_not_Nil: "splitAux sep cur s \<noteq> []"
  by (induction s arbitrary: cur) auto

lemma join_Cons: "join (x # ys) sep = (if ys = [] then x else x @ sep @ join ys sep)"
  by (cases ys) auto

lemma join_splitAux: "join (splitAux sep cur s) [sep] = cur @ s"
  by (induction s arbitrary: cur) (auto simp: join_Cons splitAux_not_Nil)

lemma join_js_split: "join (js_split s sep) [sep] = s"
  by (simp add: js_split_def join_splitAux)

lemma js_lit:
  "js [] = []" "js (c # cs) = of_char c # js cs"
  by (simp_all add: js_def)

lemma at_simps:
  "at (x # xs) 0 = Some x"
  "at (x # xs) (Suc n) = at xs n"
  "at [] n = None"
  by (simp_all add: at_def)

lemma startsWith_iff: "startsWith s p \<longleftrightarrow> (\<exists>r. s = p @ r)"
  unfolding startsWith_def
  by (metis append_eq_conv_conj append_take_drop_id)


lemma isUnescaped_not_reserved:
  "isUnescaped c \<Longrightarrow> c \<noteq> of_char CHR ''/'' \<and> c \<noteq> of_char CHR ''?'' \<and> c \<noteq> of_char CHR ''=''
     \<and> c \<noteq> of_char CHR ''&''"
  by (auto simp: isUnescaped_def unescapedSet_def js_def)

lemma encodeURIComponent_unescaped:
  "list_all isUnescaped c \<Longrightarrow> encodeURIComponent c = Inr c"
  by (induction c) auto

lemma mapE_unescaped:
  "list_all (list_all isUnescaped) cs \<Longrightarrow> mapE encodeURIComponent cs = Inr cs"
  by (induction cs) (auto simp: encodeURIComponent_unescaped)

lemma no_via_inside:
  assumes "of_char CHR ''='' \<notin> set e" "of_char CHR ''&'' \<notin> set e" "e \<noteq> []"
    and "rest = [] \<or> rest = js ''&via='' @ r"
  shows "\<not> startsWith (e @ rest) (js ''&via='')" "\<not> startsWith (e @ rest) (js ''via='')"
proof -
  obtain c e0 where e: "e = c # e0" using assms(3) by (cases e) auto
  show "\<not> startsWith (e @ rest) (js ''&via='')"
    using assms(2) e by (auto simp: startsWith_def js_def)
  show "\<not> startsWith (e @ rest) (js ''via='')"
  proof (cases e0)
    case Nil
    then show ?thesis using assms(1,4) e by (auto simp: startsWith_def js_def)
  next
    case (Cons x e1)
    note e0 = this
    show ?thesis
    proof (cases e1)
      case Nil
      then show ?thesis using e e0 assms(1,4) by (auto simp: startsWith_def js_def)
    next
      case (Cons y e2)
      then show ?thesis using e e0 assms(1,4) by (cases e2) (auto simp: startsWith_def js_def)
    qed
  qed
qed

lemma splitViaAux_piece:
  assumes "of_char CHR ''='' \<notin> set e" "of_char CHR ''&'' \<notin> set e"
    and "rest = [] \<or> rest = js ''&via='' @ r"
  shows "splitViaAux cur (e @ rest) = splitViaAux (cur @ e) rest"
  using assms(1,2)
proof (induction e arbitrary: cur)
  case Nil
  then show ?case by simp
next
  case (Cons c e)
  have "\<not> startsWith ((c # e) @ rest) (js ''&via='')" "\<not> startsWith ((c # e) @ rest) (js ''via='')"
    using no_via_inside [of "c # e" rest r] Cons.prems assms(3) by auto
  then show ?case using Cons by simp
qed

lemma splitViaAux_sep: "splitViaAux cur (js ''&via='' @ r) = cur # splitViaAux [] r"
  by (simp add: js_def startsWith_def)

lemma splitViaAux_via: "splitViaAux cur (js ''via='' @ r) = cur # splitViaAux [] r"
  by (simp add: js_def startsWith_def)

lemma splitViaAux_join:
  assumes "\<forall>e \<in> set (c # cs). of_char CHR ''='' \<notin> set e \<and> of_char CHR ''&'' \<notin> set e"
  shows "splitViaAux [] (join (c # cs) (js ''&via='')) = c # cs"
  using assms
proof (induction cs arbitrary: c)
  case Nil
  then show ?case using splitViaAux_piece [of c "[]" r "[]"] by simp
next
  case (Cons d ds)
  have "splitViaAux [] (c @ js ''&via='' @ join (d # ds) (js ''&via='')) =
        splitViaAux c (js ''&via='' @ join (d # ds) (js ''&via=''))"
    using splitViaAux_piece [of c "js ''&via='' @ join (d # ds) (js ''&via='')" "join (d # ds) (js ''&via='')" "[]"]
      Cons.prems by simp
  also have "\<dots> = c # splitViaAux [] (join (d # ds) (js ''&via=''))"
    by (rule splitViaAux_sep)
  also have "\<dots> = c # d # ds" using Cons by simp
  finally show ?case by simp
qed

lemma parseVia_rendered:
  assumes "\<forall>e \<in> set cs. e \<noteq> [] \<and> of_char CHR ''='' \<notin> set e \<and> of_char CHR ''&'' \<notin> set e"
    and "cs \<noteq> []"
  shows "parseVia (js ''via='' @ join cs (js ''&via='')) = cs"
proof -
  obtain c cs0 where cs: "cs = c # cs0" using assms(2) by (cases cs) auto
  have "splitVia (js ''via='' @ join cs (js ''&via='')) = [] # cs"
    unfolding splitVia_def splitViaAux_via using splitViaAux_join [of c cs0] assms(1) cs by simp
  moreover have "filter (\<lambda>p. p \<noteq> []) cs = cs" using assms(1) by (simp add: filter_id_conv)
  ultimately show ?thesis by (simp add: parseVia_def)
qed

subsection \<open>The claims\<close>

text \<open>
  C9: the host-recognition predicate answers true exactly for the empty host string,
  so it answers false for every non-empty host.
\<close>

theorem isPermalinkHost_iff_empty:
  "isPermalinkHost testHost = (testHost = [])"
  by (simp add: isPermalinkHost_def)

theorem isPermalinkHost_iff_empty_witness:
  "isPermalinkHost [] \<and> \<not> isPermalinkHost (js ''matrix.to'')"
  using isPermalinkHost_iff_empty [of "[]"] isPermalinkHost_iff_empty [of "js ''matrix.to''"]
  by (simp add: js_def)

text \<open>
  C2: \<open>encodeEntity\<close> goes by the first code unit alone: \<open>!\<close> gives \<open>roomid/\<close>, \<open>#\<close>
  gives \<open>r/\<close>, \<open>@\<close> gives \<open>u/\<close> and \<open>$\<close> gives \<open>e/\<close>, each followed by the rest
  of the identifier whatever it is; the empty string and every string that starts
  with another code unit fail with \<open>UnrecognizedSigil\<close>.
\<close>

theorem encodeEntity_by_first_character:
  "encodeEntity (js ''!'' @ rest) = Inr (js ''roomid/'' @ rest) \<and>
   encodeEntity (js ''#'' @ rest) = Inr (js ''r/'' @ rest) \<and>
   encodeEntity (js ''@'' @ rest) = Inr (js ''u/'' @ rest) \<and>
   encodeEntity (js ''$'' @ rest) = Inr (js ''e/'' @ rest) \<and>
   (entity = [] \<or> hd entity \<notin> set (js ''!#@$'') \<longrightarrow>
      encodeEntity entity = Inl (UnrecognizedSigil entity))"
proof -
  have "encodeEntity entity = Inl (UnrecognizedSigil entity)"
    if "entity = [] \<or> hd entity \<notin> set (js ''!#@$'')"
    using that by (cases entity) (auto simp: encodeEntity_def charAt_def js_def)
  then show ?thesis
    by (simp add: encodeEntity_def charAt_def js_def)
qed

theorem encodeEntity_by_first_character_witness:
  "encodeEntity (js ''!abc'') = Inr (js ''roomid/abc'') \<and>
   encodeEntity (js ''#abc'') = Inr (js ''r/abc'') \<and>
   encodeEntity (js ''@abc'') = Inr (js ''u/abc'') \<and>
   encodeEntity (js ''$abc'') = Inr (js ''e/abc'') \<and>
   encodeEntity (js ''abc'') = Inl (UnrecognizedSigil (js ''abc'')) \<and>
   encodeEntity [] = Inl (UnrecognizedSigil [])"
  using encodeEntity_by_first_character [of "js ''abc''" "js ''abc''"]
    encodeEntity_by_first_character [of "js ''abc''" "[]"]
  by (simp add: js_def)

lemma parts_first:
  "at (js_split s sep) 0 = Some (takeWhile (\<lambda>c. c \<noteq> sep) s)"
  by (subst js_split_takeWhile) (simp add: at_simps)

lemma parsePermalink_matrix:
  "parsePermalink (js ''matrix:'' @ rest) =
     (let parts = js_split rest (of_char CHR ''/'');
          identifier = at parts 0;
          entityNoSigil = at parts 1
      in
        if identifier = Some (js ''u'') then
          Inr (User (js ''@'' @ template entityNoSigil))
        else if identifier = Some (js ''r'') \<or> identifier = Some (js ''roomid'') then
          (let sigil = (if identifier = Some (js ''r'') then js ''#'' else js ''!'')
           in
             if length parts = 2 then
               (case entityNoSigil of
                  None \<Rightarrow> Inl TypeError
                | Some ens \<Rightarrow>
                    Inr (Room (sigil @ fst (idAndQuery ens)) (parseVia (snd (idAndQuery ens)))))
             else if at parts 2 = Some (js ''e'') then
               (let eventIdAndQuery =
                      (if length parts > 3 then join (drop 3 parts) (js ''/'') else [])
                in Inr (Event (sigil @ template entityNoSigil)
                          (js ''$'' @ fst (idAndQuery eventIdAndQuery))
                          (parseVia (snd (idAndQuery eventIdAndQuery)))))
             else Inl MalformedRoomPermalink)
        else Inl UnknownEntityType)"
proof -
  have c: "(js ''matrix:'' @ rest = [] \<or> \<not> startsWith (js ''matrix:'' @ rest) (js ''matrix:'')) = False"
    by (simp add: js_def startsWith_def)
  have d: "drop (length (js ''matrix:'')) (js ''matrix:'' @ rest) = rest"
    by simp
  show ?thesis
    by (simp only: parsePermalink_def c d if_False)
      (simp add: Let_def case_prod_beta PermalinkParts_forUser_def PermalinkParts_forRoom_def
        PermalinkParts_forEvent_def split: option.splits)
qed

lemma not_NotAPermalink:
  "TypeError \<noteq> NotAPermalink" "MalformedRoomPermalink \<noteq> NotAPermalink"
  "UnknownEntityType \<noteq> NotAPermalink"
  by (simp_all add: NotAPermalink_def UnknownEntityType_def MalformedRoomPermalink_def js_def)

text \<open>
  C5: \<open>parsePermalink\<close> fails with \<open>NotAPermalink\<close> exactly when the input does not
  start with \<open>matrix:\<close>; so it does for \<open>https://example.org\<close> and for the empty
  string.
\<close>

theorem parsePermalink_NotAPermalink_iff:
  "(parsePermalink fullUrl = Inl NotAPermalink \<longleftrightarrow> \<not> (\<exists>rest. fullUrl = js ''matrix:'' @ rest)) \<and>
   parsePermalink (js ''https://example.org'') = Inl NotAPermalink \<and>
   parsePermalink [] = Inl NotAPermalink"
proof -
  have 1: "parsePermalink fullUrl = Inl NotAPermalink"
    if "\<not> (\<exists>rest. fullUrl = js ''matrix:'' @ rest)"
    using that by (simp add: parsePermalink_def startsWith_iff)
  have 2: "parsePermalink (js ''matrix:'' @ rest) \<noteq> Inl NotAPermalink" for rest
    unfolding parsePermalink_matrix
    by (simp add: Let_def not_NotAPermalink split: option.splits)
  have 3: "parsePermalink (js ''https://example.org'') = Inl NotAPermalink"
    by (simp add: parsePermalink_def startsWith_def js_def)
  have 4: "parsePermalink [] = Inl NotAPermalink"
    by (simp add: parsePermalink_def)
  from 1 2 3 4 show ?thesis by blast
qed

theorem parsePermalink_NotAPermalink_iff_witness:
  "parsePermalink (js ''matrix:u/bob'') \<noteq> Inl NotAPermalink \<and>
   parsePermalink (js ''matrix'') = Inl NotAPermalink"
proof -
  have "\<exists>rest. js ''matrix:u/bob'' = js ''matrix:'' @ rest"
    by (simp add: js_def)
  moreover have "\<not> (\<exists>rest. js ''matrix'' = js ''matrix:'' @ rest)"
    by (simp add: js_def)
  ultimately show ?thesis
    using parsePermalink_NotAPermalink_iff [of "js ''matrix:u/bob''"]
      parsePermalink_NotAPermalink_iff [of "js ''matrix''"]
    by blast
qed

text \<open>
  C6: when the input starts with \<open>matrix:\<close> and the text up to the first \<open>/\<close> behind
  the prefix is none of \<open>u\<close>, \<open>r\<close>, \<open>roomid\<close>, \<open>parsePermalink\<close> fails with
  \<open>UnknownEntityType\<close>; so it does for \<open>matrix:x/foo\<close>.
\<close>

theorem parsePermalink_unknown_kind:
  "(takeWhile (\<lambda>c. c \<noteq> of_char CHR ''/'') rest \<notin> {js ''u'', js ''r'', js ''roomid''} \<longrightarrow>
      parsePermalink (js ''matrix:'' @ rest) = Inl UnknownEntityType) \<and>
   parsePermalink (js ''matrix:x/foo'') = Inl UnknownEntityType"
proof -
  have 1: "parsePermalink (js ''matrix:'' @ rest) = Inl UnknownEntityType"
    if "takeWhile (\<lambda>c. c \<noteq> of_char CHR ''/'') rest \<notin> {js ''u'', js ''r'', js ''roomid''}"
    for rest
    unfolding parsePermalink_matrix using that by (simp add: Let_def parts_first)
  have "parsePermalink (js ''matrix:'' @ js ''x/foo'') = Inl UnknownEntityType"
    by (rule 1) (simp add: js_def)
  then have "parsePermalink (js ''matrix:x/foo'') = Inl UnknownEntityType"
    by (simp add: js_def)
  with 1 show ?thesis by blast
qed

theorem parsePermalink_unknown_kind_witness:
  "takeWhile (\<lambda>c. c \<noteq> of_char CHR ''/'') (js ''group/abc'') \<notin> {js ''u'', js ''r'', js ''roomid''} \<and>
   parsePermalink (js ''matrix:'' @ js ''group/abc'') = Inl UnknownEntityType"
  using parsePermalink_unknown_kind [of "js ''group/abc''"]
  by (simp add: js_def)

text \<open>
  C7: when the kind is \<open>r\<close> or \<open>roomid\<close> and there is a third path segment that is not
  \<open>e\<close>, \<open>parsePermalink\<close> fails with \<open>MalformedRoomPermalink\<close>.
\<close>

theorem parsePermalink_malformed_room:
  assumes "kind = js ''r'' \<or> kind = js ''roomid''"
    and "of_char CHR ''/'' \<notin> set seg2"
    and "takeWhile (\<lambda>c. c \<noteq> of_char CHR ''/'') rest3 \<noteq> js ''e''"
  shows "parsePermalink (js ''matrix:'' @ kind @ js ''/'' @ seg2 @ js ''/'' @ rest3) =
           Inl MalformedRoomPermalink"
proof -
  let ?sl = "of_char CHR ''/'' :: jschar"
  have k: "?sl \<notin> set kind" using assms(1) by (auto simp: js_def)
  have parts: "js_split (kind @ js ''/'' @ seg2 @ js ''/'' @ rest3) ?sl =
                 kind # seg2 # js_split rest3 ?sl"
    using k assms(2) by (simp add: js_lit js_split_first)
  obtain t where third: "js_split rest3 ?sl = takeWhile (\<lambda>c. c \<noteq> ?sl) rest3 # t"
    using js_split_takeWhile [of rest3 ?sl] by blast
  have "at (kind # seg2 # js_split rest3 ?sl) 2 \<noteq> Some (js ''e'')"
    using assms(3) third by (simp add: at_def)
  moreover have "length (kind # seg2 # js_split rest3 ?sl) \<noteq> 2"
    using third by simp
  moreover have "at (kind # seg2 # js_split rest3 ?sl) 0 = Some kind"
    by (simp add: at_def)
  moreover have "kind \<noteq> js ''u''"
    using assms(1) by (auto simp: js_def)
  ultimately show ?thesis
    unfolding parsePermalink_matrix parts Let_def
    using assms(1) by auto
qed

theorem parsePermalink_malformed_room_witness:
  "parsePermalink (js ''matrix:r/room/x/evt'') = Inl MalformedRoomPermalink \<and>
   parsePermalink (js ''matrix:roomid/room/event'') = Inl MalformedRoomPermalink"
  using parsePermalink_malformed_room [of "js ''r''" "js ''room''" "js ''x/evt''"]
    parsePermalink_malformed_room [of "js ''roomid''" "js ''room''" "js ''event''"]
  by (simp add: js_def)

subsection \<open>The room and event branches\<close>

lemma takeWhile_no_sep:
  "sep \<notin> set a \<Longrightarrow>
     takeWhile (\<lambda>c. c \<noteq> sep) (a @ r) = a @ takeWhile (\<lambda>c. c \<noteq> sep) r"
  by (induction a) auto

lemma dropWhile_no_sep:
  "sep \<notin> set a \<Longrightarrow>
     dropWhile (\<lambda>c. c \<noteq> sep) (a @ r) = dropWhile (\<lambda>c. c \<noteq> sep) r"
  by (induction a) auto

lemma js_split_second:
  "at (js_split s sep) 1 =
     (if sep \<in> set s then Some (takeWhile (\<lambda>c. c \<noteq> sep) (drop 1 (dropWhile (\<lambda>c. c \<noteq> sep) s)))
      else None)"
proof (cases "sep \<in> set s")
  case False
  then show ?thesis by (simp add: js_split_no_sep at_def)
next
  case True
  then obtain a r where s: "s = a @ sep # r" "sep \<notin> set a"
    by (meson split_list_first)
  obtain t where "js_split r sep = takeWhile (\<lambda>c. c \<noteq> sep) r # t"
    using js_split_takeWhile [of r sep] by blast
  then show ?thesis
    using s by (simp add: js_split_first at_def dropWhile_no_sep)
qed

lemma idAndQuery_eq:
  "idAndQuery s =
     (takeWhile (\<lambda>c. c \<noteq> of_char CHR ''?'') s,
      takeWhile (\<lambda>c. c \<noteq> of_char CHR ''?'') (drop 1 (dropWhile (\<lambda>c. c \<noteq> of_char CHR ''?'') s)))"
proof -
  let ?q = "of_char CHR ''?'' :: jschar"
  have 1: "template (at (js_split s ?q) 0) = takeWhile (\<lambda>c. c \<noteq> ?q) s"
    by (simp only: parts_first template_def option.case)
  have 2: "(case at (js_split s ?q) 1 of None \<Rightarrow> [] | Some q \<Rightarrow> q) =
             takeWhile (\<lambda>c. c \<noteq> ?q) (drop 1 (dropWhile (\<lambda>c. c \<noteq> ?q) s))"
  proof (cases "?q \<in> set s")
    case True
    then show ?thesis by (simp only: js_split_second if_True option.case)
  next
    case False
    then have "dropWhile (\<lambda>c. c \<noteq> ?q) s = []" by auto
    then show ?thesis using False by (simp only: js_split_second if_False option.case) simp
  qed
  show ?thesis
    by (simp only: idAndQuery_def Let_def 1 2)
qed

lemma idAndQuery_plain:
  "of_char CHR ''?'' \<notin> set a \<Longrightarrow> idAndQuery a = (a, [])"
proof -
  assume a: "of_char CHR ''?'' \<notin> set a"
  then have "dropWhile (\<lambda>c. c \<noteq> of_char CHR ''?'') a = []" by auto
  moreover have "takeWhile (\<lambda>c. c \<noteq> of_char CHR ''?'') a = a"
    using a by (induction a) auto
  ultimately show ?thesis by (simp only: idAndQuery_eq) simp
qed

lemma idAndQuery_query:
  "of_char CHR ''?'' \<notin> set a \<Longrightarrow> of_char CHR ''?'' \<notin> set q \<Longrightarrow>
     idAndQuery (a @ js ''?'' @ q) = (a, q)"
  using takeWhile_no_sep [of "of_char CHR ''?''" a "js ''?'' @ q"]
    dropWhile_no_sep [of "of_char CHR ''?''" a "js ''?'' @ q"]
    takeWhile_no_sep [of "of_char CHR ''?''" q "[]"]
  by (simp add: idAndQuery_eq js_def)

lemma parse_room_branch:
  assumes "kind = js ''r'' \<or> kind = js ''roomid''" and "of_char CHR ''/'' \<notin> set rest"
  shows "parsePermalink (js ''matrix:'' @ kind @ js ''/'' @ rest) =
           Inr (Room ((if kind = js ''r'' then js ''#'' else js ''!'') @ fst (idAndQuery rest))
                  (parseVia (snd (idAndQuery rest))))"
proof -
  let ?sl = "of_char CHR ''/'' :: jschar"
  have k: "?sl \<notin> set kind" using assms(1) by (auto simp: js_def)
  have parts: "js_split (kind @ js ''/'' @ rest) ?sl = [kind, rest]"
    using k assms(2) by (simp add: js_lit js_split_first js_split_no_sep)
  have "kind \<noteq> js ''u''"
    using assms(1) by (auto simp: js_def)
  then show ?thesis
    unfolding parsePermalink_matrix parts Let_def
    using assms(1) by (auto simp: at_simps)
qed

lemma parse_event_branch:
  assumes "kind = js ''r'' \<or> kind = js ''roomid''" and "of_char CHR ''/'' \<notin> set room"
  shows "parsePermalink (js ''matrix:'' @ kind @ js ''/'' @ room @ js ''/e/'' @ tail) =
           Inr (Event ((if kind = js ''r'' then js ''#'' else js ''!'') @ room)
                  (js ''$'' @ fst (idAndQuery tail))
                  (parseVia (snd (idAndQuery tail))))"
proof -
  let ?sl = "of_char CHR ''/'' :: jschar"
  have k: "?sl \<notin> set kind" using assms(1) by (auto simp: js_def)
  have e: "?sl \<notin> set (js ''e'')" by (simp add: js_def)
  have p3: "js_split (js ''e'' @ ?sl # tail) ?sl = js ''e'' # js_split tail ?sl"
    using e by (rule js_split_first)
  have p2: "js_split (room @ ?sl # js ''e'' @ ?sl # tail) ?sl =
              room # js_split (js ''e'' @ ?sl # tail) ?sl"
    using assms(2) by (rule js_split_first)
  have p1: "js_split (kind @ ?sl # room @ ?sl # js ''e'' @ ?sl # tail) ?sl =
              kind # js_split (room @ ?sl # js ''e'' @ ?sl # tail) ?sl"
    using k by (rule js_split_first)
  have "js_split (kind @ ?sl # room @ ?sl # js ''e'' @ ?sl # tail) ?sl =
          kind # room # js ''e'' # js_split tail ?sl"
    by (simp only: p1 p2 p3)
  then have parts: "js_split (kind @ js ''/'' @ room @ js ''/e/'' @ tail) ?sl =
                 kind # room # js ''e'' # js_split tail ?sl"
    by (simp add: js_def)
  obtain p ps where t: "js_split tail ?sl = p # ps"
    using splitAux_not_Nil [of ?sl "[]" tail] by (cases "js_split tail ?sl") (auto simp: js_split_def)
  have j: "join (js_split tail ?sl) (js ''/'') = tail"
    using join_js_split [of tail ?sl] by (simp add: js_def)
  have "kind \<noteq> js ''u''"
    using assms(1) by (auto simp: js_def)
  moreover have "at (kind # room # js ''e'' # js_split tail ?sl) 2 = Some (js ''e'')"
    by (simp add: at_def)
  moreover have "length (kind # room # js ''e'' # js_split tail ?sl) \<noteq> 2"
     "3 < length (kind # room # js ''e'' # js_split tail ?sl)"
    using t by simp_all
  moreover have "at (kind # room # js ''e'' # js_split tail ?sl) 1 = Some room"
     "at (kind # room # js ''e'' # js_split tail ?sl) 0 = Some kind"
    by (simp_all add: at_def)
  moreover have "drop 3 (kind # room # js ''e'' # js_split tail ?sl) = js_split tail ?sl"
    by simp
  ultimately show ?thesis
    unfolding parsePermalink_matrix parts Let_def
    using assms(1) j by (auto simp: template_def)
qed

lemma startsWith_split: "startsWith s p \<Longrightarrow> s = p @ drop (length p) s"
  unfolding startsWith_def by (metis append_take_drop_id)

lemma via_lengths: "length (js ''&via='') = 5" "length (js ''via='') = 4"
  by (simp_all add: js_def)

lemma splitViaAux_weave:
  "\<exists>seps. set seps \<subseteq> {js ''via='', js ''&via=''} \<and>
      length (splitViaAux cur s) = Suc (length seps) \<and>
      weave (splitViaAux cur s) seps = cur @ s"
proof (induction cur s rule: splitViaAux.induct)
  case (1 cur)
  have "set [] \<subseteq> {js ''via='', js ''&via=''} \<and>
      length (splitViaAux cur []) = Suc (length ([] :: jsstring list)) \<and>
      weave (splitViaAux cur []) [] = cur @ []"
    by simp
  then show ?case by blast
next
  case (2 cur c cs)
  show ?case
  proof (cases "startsWith (c # cs) (js ''&via='')")
    case True
    have eq: "c # cs = js ''&via='' @ drop 5 (c # cs)"
      using startsWith_split [OF True] unfolding via_lengths .
    obtain seps where s: "set seps \<subseteq> {js ''via='', js ''&via=''}"
      "length (splitViaAux [] (drop 5 (c # cs))) = Suc (length seps)"
      "weave (splitViaAux [] (drop 5 (c # cs))) seps = [] @ drop 5 (c # cs)"
      using 2(1) [OF True] by blast
    have "weave (splitViaAux cur (c # cs)) (js ''&via='' # seps) =
            cur @ js ''&via='' @ drop 5 (c # cs)"
      using True s(3) by simp
    then have "weave (splitViaAux cur (c # cs)) (js ''&via='' # seps) = cur @ c # cs"
      by (metis eq)
    moreover have "length (splitViaAux cur (c # cs)) = Suc (length (js ''&via='' # seps))"
      using True s(2) by simp
    moreover have "set (js ''&via='' # seps) \<subseteq> {js ''via='', js ''&via=''}"
      using s(1) by simp
    ultimately show ?thesis by blast
  next
    case False
    note nf = this
    show ?thesis
    proof (cases "startsWith (c # cs) (js ''via='')")
      case True
      have eq: "c # cs = js ''via='' @ drop 4 (c # cs)"
        using startsWith_split [OF True] unfolding via_lengths .
      obtain seps where s: "set seps \<subseteq> {js ''via='', js ''&via=''}"
        "length (splitViaAux [] (drop 4 (c # cs))) = Suc (length seps)"
        "weave (splitViaAux [] (drop 4 (c # cs))) seps = [] @ drop 4 (c # cs)"
        using 2(2) [OF nf True] by blast
      have "weave (splitViaAux cur (c # cs)) (js ''via='' # seps) =
              cur @ js ''via='' @ drop 4 (c # cs)"
        using nf True s(3) by simp
      then have "weave (splitViaAux cur (c # cs)) (js ''via='' # seps) = cur @ c # cs"
        by (metis eq)
      moreover have "length (splitViaAux cur (c # cs)) = Suc (length (js ''via='' # seps))"
        using nf True s(2) by simp
      moreover have "set (js ''via='' # seps) \<subseteq> {js ''via='', js ''&via=''}"
        using s(1) by simp
      ultimately show ?thesis by blast
    next
      case False
      obtain seps where s: "set seps \<subseteq> {js ''via='', js ''&via=''}"
        "length (splitViaAux (cur @ [c]) cs) = Suc (length seps)"
        "weave (splitViaAux (cur @ [c]) cs) seps = (cur @ [c]) @ cs"
        using 2(3) [OF nf False] by blast
      have "splitViaAux cur (c # cs) = splitViaAux (cur @ [c]) cs"
        using nf False by simp
      then show ?thesis using s by auto
    qed
  qed
qed


lemma parts_u:
  "js_split (js ''u/'' @ rest) (of_char CHR ''/'') = js ''u'' # js_split rest (of_char CHR ''/'')"
  using js_split_first [of "of_char CHR ''/''" "js ''u''" rest] by (simp add: js_def)

text \<open>
  C8, as stated, fails: the user id is the second path segment only, so text behind a
  further \<open>/\<close> is not part of it.
\<close>

theorem parsePermalink_user_counterexample:
  "parsePermalink (js ''matrix:u/bob/extra'') = Inr (User (js ''@bob'')) \<and>
   parsePermalink (js ''matrix:u/bob/extra'') \<noteq> Inr (User (js ''@bob/extra''))"
  by (simp add: parsePermalink_def startsWith_def js_def js_split_def at_def template_def
      PermalinkParts_forUser_def)

text \<open>
  C8, amended: for \<open>matrix:u/\<close> followed by any text, \<open>parsePermalink\<close> takes the text up
  to the next \<open>/\<close> (all of it when there is none) as the bare user id, parses no query,
  puts \<open>@\<close> in front and returns the \<open>User\<close> variant, which carries no server
  candidates; so \<open>matrix:u/bob:example.org\<close> gives \<open>User @bob:example.org\<close>.
\<close>

theorem parsePermalink_user:
  "parsePermalink (js ''matrix:u/'' @ rest) =
     Inr (User (js ''@'' @ takeWhile (\<lambda>c. c \<noteq> of_char CHR ''/'') rest)) \<and>
   (of_char CHR ''/'' \<notin> set rest \<longrightarrow>
      parsePermalink (js ''matrix:u/'' @ rest) = Inr (User (js ''@'' @ rest))) \<and>
   parsePermalink (js ''matrix:u/bob:example.org'') = Inr (User (js ''@bob:example.org''))"
proof -
  have 1: "parsePermalink (js ''matrix:u/'' @ rest) =
     Inr (User (js ''@'' @ takeWhile (\<lambda>c. c \<noteq> of_char CHR ''/'') rest))" for rest
  proof -
    have "parsePermalink (js ''matrix:'' @ js ''u/'' @ rest) =
       Inr (User (js ''@'' @ takeWhile (\<lambda>c. c \<noteq> of_char CHR ''/'') rest))"
      unfolding parsePermalink_matrix parts_u
      by (simp add: Let_def at_simps parts_first template_def)
    then show ?thesis by (simp add: js_def)
  qed
  have 2: "parsePermalink (js ''matrix:u/'' @ rest) = Inr (User (js ''@'' @ rest))"
    if "of_char CHR ''/'' \<notin> set rest" for rest
  proof -
    have "takeWhile (\<lambda>c. c \<noteq> of_char CHR ''/'') rest = rest"
      using that by (simp add: takeWhile_eq_all_conv) metis
    then show ?thesis using 1 [of rest] by simp
  qed
  have "parsePermalink (js ''matrix:u/'' @ js ''bob:example.org'') =
          Inr (User (js ''@'' @ js ''bob:example.org''))"
    by (rule 2) (simp add: js_def)
  then have 3: "parsePermalink (js ''matrix:u/bob:example.org'') = Inr (User (js ''@bob:example.org''))"
    by (simp add: js_def)
  from 1 2 3 show ?thesis by blast
qed

theorem parsePermalink_user_witness:
  "of_char CHR ''/'' \<notin> set (js ''alice?x=1'') \<and>
   parsePermalink (js ''matrix:u/'' @ js ''alice?x=1'') = Inr (User (js ''@'' @ js ''alice?x=1''))"
  using parsePermalink_user [of "js ''alice?x=1''"]
  by (simp add: js_def)

text \<open>
  C4, as stated, fails: with two \<open>?\<close> in the remainder, the candidates are not those
  parsed from everything behind the first \<open>?\<close>.
\<close>

theorem parsePermalink_query_between_marks_counterexample:
  "parsePermalink (js ''matrix:r/room?via=a?via=b'') \<noteq>
     Inr (Room (js ''#room'') (parseVia (js ''via=a?via=b''))) \<and>
   parsePermalink (js ''matrix:roomid/room/e/evt?via=a?via=b'') \<noteq>
     Inr (Event (js ''!room'') (js ''$evt'') (parseVia (js ''via=a?via=b'')))"
  by code_simp

text \<open>
  C4, amended: in the two-segment room branch and in the event branch the remaining
  text is split at every \<open>?\<close>; the identifier is the text before the first \<open>?\<close>, the
  query string is the text between the first \<open>?\<close> and the second one (or the end), and
  the via candidates are parsed from that; text behind a second \<open>?\<close> is not used.
\<close>

theorem parsePermalink_query_between_marks:
  "((kind = js ''r'' \<or> kind = js ''roomid'') \<and> of_char CHR ''/'' \<notin> set rest \<longrightarrow>
      parsePermalink (js ''matrix:'' @ kind @ js ''/'' @ rest) =
        Inr (Room ((if kind = js ''r'' then js ''#'' else js ''!'') @
                     takeWhile (\<lambda>c. c \<noteq> of_char CHR ''?'') rest)
               (parseVia (takeWhile (\<lambda>c. c \<noteq> of_char CHR ''?'')
                            (drop 1 (dropWhile (\<lambda>c. c \<noteq> of_char CHR ''?'') rest)))))) \<and>
   ((kind = js ''r'' \<or> kind = js ''roomid'') \<and> of_char CHR ''/'' \<notin> set room \<longrightarrow>
      parsePermalink (js ''matrix:'' @ kind @ js ''/'' @ room @ js ''/e/'' @ tail) =
        Inr (Event ((if kind = js ''r'' then js ''#'' else js ''!'') @ room)
               (js ''$'' @ takeWhile (\<lambda>c. c \<noteq> of_char CHR ''?'') tail)
               (parseVia (takeWhile (\<lambda>c. c \<noteq> of_char CHR ''?'')
                            (drop 1 (dropWhile (\<lambda>c. c \<noteq> of_char CHR ''?'') tail))))))"
  using parse_room_branch [of kind rest] parse_event_branch [of kind room tail]
  by (simp only: idAndQuery_eq fst_conv snd_conv) blast

theorem parsePermalink_query_between_marks_witness:
  "parsePermalink (js ''matrix:r/room?via=a?via=b'') = Inr (Room (js ''#room'') [js ''a'']) \<and>
   parsePermalink (js ''matrix:roomid/room/e/evt?via=a?via=b'') =
     Inr (Event (js ''!room'') (js ''$evt'') [js ''a''])"
proof -
  have "parseVia (js ''via=a'') = [js ''a'']"
    by (simp add: parseVia_def splitVia_def startsWith_def js_def)
  then show ?thesis
    using parsePermalink_query_between_marks [of "js ''r''" "js ''room?via=a?via=b''" "js ''room''" "js ''evt''"]
      parsePermalink_query_between_marks [of "js ''roomid''" "js ''room''" "js ''room''" "js ''evt?via=a?via=b''"]
    by (simp add: js_def)
qed

text \<open>
  C10, as stated, fails: query text behind a second \<open>?\<close> is discarded, both what is
  not a via value (\<open>bar\<close>) and what is (\<open>a\<close>).
\<close>

theorem parsePermalink_via_fragments_counterexample:
  "parsePermalink (js ''matrix:r/room?foo=1?bar&via=a'') =
     Inr (Room (js ''#room'') [js ''foo=1'']) \<and>
   parsePermalink (js ''matrix:r/room?foo=1?bar&via=a'') \<noteq>
     Inr (Room (js ''#room'') (filter (\<lambda>p. p \<noteq> []) (splitVia (js ''foo=1?bar&via=a''))))"
  by code_simp

text \<open>
  C10, amended: in a room or event permalink the query string is the text between the
  first \<open>?\<close> and the second one (or the end). It is cut at every match of an optional
  \<open>&\<close> followed by \<open>via=\<close>, and the candidates are the non-empty pieces, in order. The
  pieces and the matched separators together are the whole of that text, so what is
  not a via value in it is kept as (part of) a candidate:
  \<open>matrix:r/room:example.org?foo=1&via=a\<close> gives the candidates \<open>foo=1\<close> and \<open>a\<close>.
  No candidate is percent-decoded. Text behind a second \<open>?\<close> is discarded.
\<close>

theorem parsePermalink_via_fragments:
  "((kind = js ''r'' \<or> kind = js ''roomid'') \<and> of_char CHR ''/'' \<notin> set rest \<longrightarrow>
      parsePermalink (js ''matrix:'' @ kind @ js ''/'' @ rest) =
        Inr (Room ((if kind = js ''r'' then js ''#'' else js ''!'') @
                     takeWhile (\<lambda>c. c \<noteq> of_char CHR ''?'') rest)
               (filter (\<lambda>p. p \<noteq> [])
                  (splitVia (takeWhile (\<lambda>c. c \<noteq> of_char CHR ''?'')
                     (drop 1 (dropWhile (\<lambda>c. c \<noteq> of_char CHR ''?'') rest))))))) \<and>
   ((kind = js ''r'' \<or> kind = js ''roomid'') \<and> of_char CHR ''/'' \<notin> set room \<longrightarrow>
      parsePermalink (js ''matrix:'' @ kind @ js ''/'' @ room @ js ''/e/'' @ tail) =
        Inr (Event ((if kind = js ''r'' then js ''#'' else js ''!'') @ room)
               (js ''$'' @ takeWhile (\<lambda>c. c \<noteq> of_char CHR ''?'') tail)
               (filter (\<lambda>p. p \<noteq> [])
                  (splitVia (takeWhile (\<lambda>c. c \<noteq> of_char CHR ''?'')
                     (drop 1 (dropWhile (\<lambda>c. c \<noteq> of_char CHR ''?'') tail))))))) \<and>
   (\<exists>seps. set seps \<subseteq> {js ''via='', js ''&via=''} \<and>
      length (splitVia query) = Suc (length seps) \<and>
      weave (splitVia query) seps = query) \<and>
   parsePermalink (js ''matrix:r/room:example.org?foo=1&via=a'') =
     Inr (Room (js ''#room:example.org'') [js ''foo=1'', js ''a'']) \<and>
   parsePermalink (js ''matrix:r/room:example.org?via=example.org%3A8448'') =
     Inr (Room (js ''#room:example.org'') [js ''example.org%3A8448''])"
proof -
  have 1: "parsePermalink (js ''matrix:'' @ kind @ js ''/'' @ rest) =
        Inr (Room ((if kind = js ''r'' then js ''#'' else js ''!'') @
                     takeWhile (\<lambda>c. c \<noteq> of_char CHR ''?'') rest)
               (filter (\<lambda>p. p \<noteq> [])
                  (splitVia (takeWhile (\<lambda>c. c \<noteq> of_char CHR ''?'')
                     (drop 1 (dropWhile (\<lambda>c. c \<noteq> of_char CHR ''?'') rest))))))"
    if h: "kind = js ''r'' \<or> kind = js ''roomid''" "of_char CHR ''/'' \<notin> set rest"
    using parse_room_branch [OF h]
    by (simp only: idAndQuery_eq fst_conv snd_conv parseVia_def)
  have 2: "parsePermalink (js ''matrix:'' @ kind @ js ''/'' @ room @ js ''/e/'' @ tail) =
        Inr (Event ((if kind = js ''r'' then js ''#'' else js ''!'') @ room)
               (js ''$'' @ takeWhile (\<lambda>c. c \<noteq> of_char CHR ''?'') tail)
               (filter (\<lambda>p. p \<noteq> [])
                  (splitVia (takeWhile (\<lambda>c. c \<noteq> of_char CHR ''?'')
                     (drop 1 (dropWhile (\<lambda>c. c \<noteq> of_char CHR ''?'') tail))))))"
    if h: "kind = js ''r'' \<or> kind = js ''roomid''" "of_char CHR ''/'' \<notin> set room"
    using parse_event_branch [OF h, of tail]
    by (simp only: idAndQuery_eq fst_conv snd_conv parseVia_def)
  have 3: "\<exists>seps. set seps \<subseteq> {js ''via='', js ''&via=''} \<and>
      length (splitVia query) = Suc (length seps) \<and>
      weave (splitVia query) seps = query"
    using splitViaAux_weave [of "[]" query] by (simp add: splitVia_def)
  have 4: "parsePermalink (js ''matrix:r/room:example.org?foo=1&via=a'') =
     Inr (Room (js ''#room:example.org'') [js ''foo=1'', js ''a''])"
    by code_simp
  have 5: "parsePermalink (js ''matrix:r/room:example.org?via=example.org%3A8448'') =
     Inr (Room (js ''#room:example.org'') [js ''example.org%3A8448''])"
    by code_simp
  from 1 2 3 4 5 show ?thesis by blast
qed

theorem parsePermalink_via_fragments_witness:
  "parsePermalink (js ''matrix:roomid/abc?x&via=s1?y&via=s2'') =
     Inr (Room (js ''!abc'') [js ''x'', js ''s1'']) \<and>
   parsePermalink (js ''matrix:r/abc/e/ev?via=s1&&via=s%2F2'') =
     Inr (Event (js ''#abc'') (js ''$ev'') [js ''s1&'', js ''s%2F2''])"
proof -
  have a: "splitVia (js ''x&via=s1'') = [js ''x'', js ''s1'']"
    by (simp add: splitVia_def startsWith_def js_def)
  have b: "splitVia (js ''via=s1&&via=s%2F2'') = [[], js ''s1&'', js ''s%2F2'']"
    by (simp add: splitVia_def startsWith_def js_def)
  show ?thesis
    using a b
      parsePermalink_via_fragments [of "js ''roomid''" "js ''abc?x&via=s1?y&via=s2''"
        "js ''abc''" "js ''ev''"]
      parsePermalink_via_fragments [of "js ''r''" "js ''abc''"
        "js ''abc''" "js ''ev?via=s1&&via=s%2F2''"]
    by (simp add: js_def)
qed

subsection \<open>Percent-encoding and the rendered query\<close>

lemma unescaped_not_surrogate:
  "isUnescaped c \<Longrightarrow> \<not> isLeadSurrogate c \<and> \<not> isTrailSurrogate c"
  by (auto simp: isUnescaped_def unescapedSet_def js_def isLeadSurrogate_def isTrailSurrogate_def)

lemma lead_not_trail: "isLeadSurrogate c \<Longrightarrow> \<not> isTrailSurrogate c"
  unfolding isLeadSurrogate_def isTrailSurrogate_def
  by (auto simp: word_le_nat_alt)

lemma encodeURIComponent_error: "encodeURIComponent s = Inl e \<Longrightarrow> e = URIError"
  by (induction s arbitrary: e rule: encodeURIComponent.induct)
    (auto split: if_splits sum.splits list.splits)

lemma encodeURIComponent_wellFormed:
  "(\<exists>r. encodeURIComponent s = Inr r) \<longleftrightarrow> wellFormed s"
proof (induction s rule: wellFormed.induct)
  case 1
  then show ?case by simp
next
  case (2 c)
  then show ?case
    using unescaped_not_surrogate [of c] by auto
next
  case (3 c d ds)
  show ?case
  proof (cases "isLeadSurrogate c")
    case True
    then have "\<not> isUnescaped c" "\<not> isTrailSurrogate c"
      using unescaped_not_surrogate [of c] lead_not_trail [of c] by auto
    then show ?thesis using True 3(1) by (auto split: sum.splits)
  next
    case False
    then show ?thesis
      using 3(2) unescaped_not_surrogate [of c]
      by (cases "encodeURIComponent (d # ds)") (auto simp del: encodeURIComponent.simps(2) simp add: encodeURIComponent.simps(2) [of c])
  qed
qed

lemma mapE_Cons_Inr:
  "mapE f (x # xs) = Inr zs \<longleftrightarrow> (\<exists>y ys. zs = y # ys \<and> f x = Inr y \<and> mapE f xs = Inr ys)"
  by (auto split: sum.splits)

lemma mapE_list_all2:
  "mapE f xs = Inr ys \<longleftrightarrow> list_all2 (\<lambda>x y. f x = Inr y) xs ys"
proof (induction xs arbitrary: ys)
  case Nil
  then show ?case by auto
next
  case (Cons x xs)
  show ?case
    unfolding mapE_Cons_Inr list_all2_Cons1 Cons.IH by blast
qed

lemma mapE_error:
  "mapE f xs = Inl e \<Longrightarrow> \<exists>x \<in> set xs. f x = Inl e"
  by (induction xs arbitrary: e) (auto split: sum.splits)

lemma mapE_total:
  "\<forall>x \<in> set xs. \<exists>y. f x = Inr y \<Longrightarrow> \<exists>ys. mapE f xs = Inr ys"
  by (induction xs) (auto split: sum.splits)

lemma hexDigit_unescaped: "n < 16 \<Longrightarrow> hexDigit n \<in> set unescapedSet"
proof -
  assume "n < 16"
  then have "n \<in> {0, 1, 2, 3, 4, 5, 6, 7, 8, 9, 10, 11, 12, 13, 14, 15}" by simp arith
  then show ?thesis
    by (auto simp: hexDigit_def unescapedSet_def js_def)
qed

lemma escapeOctet_safe: "b < 256 \<Longrightarrow> set (escapeOctet b) \<subseteq> insert 0x25 (set unescapedSet)"
proof -
  assume b: "b < 256"
  then have "b div 16 < 16" "b mod 16 < 16" by auto
  then show ?thesis
    using hexDigit_unescaped by (auto simp: escapeOctet_def)
qed

lemma utf8Octets_bytes: "cp < 0x110000 \<Longrightarrow> \<forall>b \<in> set (utf8Octets cp). b < 256"
  by (auto simp: utf8Octets_def)

lemma escapeCodePoint_safe:
  "cp < 0x110000 \<Longrightarrow> set (escapeCodePoint cp) \<subseteq> insert 0x25 (set unescapedSet)"
  using utf8Octets_bytes [of cp] escapeOctet_safe
  by (fastforce simp: escapeCodePoint_def)

lemma unat_jschar: "unat (c :: jschar) < 0x110000"
  using unsigned_less [of c, where ?'a = nat] by simp

lemma surrogatePair_bound:
  "isLeadSurrogate hi \<Longrightarrow> isTrailSurrogate lo \<Longrightarrow> surrogatePair hi lo < 0x110000"
  unfolding isLeadSurrogate_def isTrailSurrogate_def surrogatePair_def
  by (auto simp: word_le_nat_alt)

lemma encodeURIComponent_safe:
  "encodeURIComponent s = Inr r \<Longrightarrow> set r \<subseteq> insert 0x25 (set unescapedSet)"
proof (induction s arbitrary: r rule: encodeURIComponent.induct)
  case 1
  then show ?case by simp
next
  case (2 c cs)
  show ?case
  proof (cases "isUnescaped c")
    case True
    then show ?thesis using 2(1) [OF True] 2(4)
      by (auto simp: isUnescaped_def split: sum.splits)
  next
    case False
    note nu = this
    show ?thesis
    proof (cases "isLeadSurrogate c")
      case False
      then have nt: "\<not> isTrailSurrogate c" using 2(4) nu by (auto split: if_splits)
      show ?thesis
        using 2(2) [OF nu nt] False nu nt 2(4) escapeCodePoint_safe [OF unat_jschar [of c]]
        by (auto split: sum.splits)
    next
      case True
      then have nt: "\<not> isTrailSurrogate c" by (rule lead_not_trail)
      from 2(4) nu nt True obtain d ds where cs: "cs = d # ds" and td: "isTrailSurrogate d"
        by (cases cs) (auto split: if_splits)
      have "\<not> \<not> isLeadSurrogate c" using True by simp
      from 2(3) [OF nu nt this cs td]
      show ?thesis
        using True nu nt 2(4) cs td escapeCodePoint_safe [OF surrogatePair_bound [OF True td]]
        by (auto split: sum.splits)
    qed
  qed
qed

text \<open>
  C3, as stated, fails: a candidate with an unpaired surrogate makes
  \<open>encodeURIComponent\<close>, and so \<open>encodeServerCandidates\<close>, throw \<open>URIError\<close>.
\<close>

theorem encodeServerCandidates_rendering_counterexample:
  "encodeServerCandidates (Some [[0xD800]]) = Inl URIError"
  by (simp add: encodeServerCandidates_def isUnescaped_def unescapedSet_def js_def
      isTrailSurrogate_def isLeadSurrogate_def)

text \<open>
  C3, amended: \<open>encodeServerCandidates\<close> returns the empty string for an empty or
  absent list. For a non-empty list of well-formed candidates it returns \<open>?via=\<close>
  followed by the percent-encoded candidates, in input order, joined by \<open>&via=\<close>; each
  encoded candidate has only unreserved characters and \<open>%\<close>, and a candidate of
  unreserved characters is unchanged. For a non-empty list with a candidate that is
  not well-formed it throws \<open>URIError\<close>. So \<open>["a","b"]\<close> gives \<open>?via=a&via=b\<close>.
\<close>

theorem encodeServerCandidates_rendering:
  "encodeServerCandidates None = Inr [] \<and>
   encodeServerCandidates (Some []) = Inr [] \<and>
   (cs \<noteq> [] \<and> list_all wellFormed cs \<longrightarrow>
      (\<exists>es. list_all2 (\<lambda>c e. encodeURIComponent c = Inr e \<and>
                                 set e \<subseteq> insert 0x25 (set unescapedSet)) cs es \<and>
            encodeServerCandidates (Some cs) = Inr (js ''?via='' @ join es (js ''&via='')))) \<and>
   (cs \<noteq> [] \<and> \<not> list_all wellFormed cs \<longrightarrow>
      encodeServerCandidates (Some cs) = Inl URIError) \<and>
   (list_all isUnescaped c \<longrightarrow> encodeURIComponent c = Inr c) \<and>
   encodeServerCandidates (Some [js ''a'', js ''b'']) = Inr (js ''?via=a&via=b'') \<and>
   encodeServerCandidates (Some [js ''example.org:8448'']) = Inr (js ''?via=example.org%3A8448'')"
proof -
  have 1: "encodeServerCandidates None = Inr []" "encodeServerCandidates (Some []) = Inr []"
    by (simp_all add: encodeServerCandidates_def)
  have 2: "\<exists>es. list_all2 (\<lambda>c e. encodeURIComponent c = Inr e \<and>
                                 set e \<subseteq> insert 0x25 (set unescapedSet)) cs es \<and>
            encodeServerCandidates (Some cs) = Inr (js ''?via='' @ join es (js ''&via=''))"
    if h: "cs \<noteq> []" "list_all wellFormed cs"
  proof -
    have "\<forall>c \<in> set cs. \<exists>e. encodeURIComponent c = Inr e"
      using h(2) encodeURIComponent_wellFormed by (auto simp: list_all_iff)
    then obtain es where es: "mapE encodeURIComponent cs = Inr es"
      using mapE_total [of cs encodeURIComponent] by blast
    then have "list_all2 (\<lambda>c e. encodeURIComponent c = Inr e) cs es"
      by (simp add: mapE_list_all2)
    then have "list_all2 (\<lambda>c e. encodeURIComponent c = Inr e \<and>
                 set e \<subseteq> insert 0x25 (set unescapedSet)) cs es"
      by (rule list_all2_mono) (auto dest: encodeURIComponent_safe)
    moreover have "encodeServerCandidates (Some cs) = Inr (js ''?via='' @ join es (js ''&via=''))"
      using h(1) es by (simp add: encodeServerCandidates_def)
    ultimately show ?thesis by blast
  qed
  have 3: "encodeServerCandidates (Some cs) = Inl URIError"
    if h: "cs \<noteq> []" "\<not> list_all wellFormed cs"
  proof -
    obtain c where c: "c \<in> set cs" "\<not> wellFormed c"
      using h(2) by (auto simp: list_all_iff)
    have "\<not> (\<exists>es. mapE encodeURIComponent cs = Inr es)"
    proof
      assume "\<exists>es. mapE encodeURIComponent cs = Inr es"
      then obtain es where "list_all2 (\<lambda>c e. encodeURIComponent c = Inr e) cs es"
        by (auto simp: mapE_list_all2)
      then have "\<exists>e. encodeURIComponent c = Inr e"
        using c(1) by (auto simp: list_all2_conv_all_nth in_set_conv_nth)
      then show False using c(2) encodeURIComponent_wellFormed by blast
    qed
    then obtain e where e: "mapE encodeURIComponent cs = Inl e"
      by (cases "mapE encodeURIComponent cs") auto
    then have "e = URIError"
      using mapE_error [OF e] encodeURIComponent_error by blast
    then show ?thesis using h(1) e by (simp add: encodeServerCandidates_def)
  qed
  have 4: "encodeURIComponent c = Inr c" if "list_all isUnescaped c"
    using that by (rule encodeURIComponent_unescaped)
  have 5: "encodeServerCandidates (Some [js ''a'', js ''b'']) = Inr (js ''?via=a&via=b'')"
    by code_simp
  have 6: "encodeServerCandidates (Some [js ''example.org:8448'']) = Inr (js ''?via=example.org%3A8448'')"
    by code_simp
  from 1 2 3 4 5 6 show ?thesis by blast
qed

theorem encodeServerCandidates_rendering_witness:
  "list_all wellFormed [js ''s1'', [0xD83D, 0xDE00]] \<and>
   (\<exists>es. list_all2 (\<lambda>c e. encodeURIComponent c = Inr e \<and>
                              set e \<subseteq> insert 0x25 (set unescapedSet)) [js ''s1'', [0xD83D, 0xDE00]] es \<and>
      encodeServerCandidates (Some [js ''s1'', [0xD83D, 0xDE00]]) =
        Inr (js ''?via='' @ join es (js ''&via=''))) \<and>
   \<not> list_all wellFormed [js ''s1'', [0xDE00, 0xD83D]] \<and>
   encodeServerCandidates (Some [js ''s1'', [0xDE00, 0xD83D]]) = Inl URIError \<and>
   list_all isUnescaped (js ''s1'') \<and> encodeURIComponent (js ''s1'') = Inr (js ''s1'')"
proof -
  have a: "list_all wellFormed [js ''s1'', [0xD83D, 0xDE00]]"
    by (simp add: js_def isLeadSurrogate_def isTrailSurrogate_def)
  have b: "\<not> list_all wellFormed [js ''s1'', [0xDE00, 0xD83D]]"
    by (simp add: js_def isLeadSurrogate_def isTrailSurrogate_def)
  have c: "list_all isUnescaped (js ''s1'')"
    by (simp add: js_def isUnescaped_def unescapedSet_def)
  show ?thesis
    using a b c
      encodeServerCandidates_rendering [of "[js ''s1'', [0xD83D, 0xDE00]]" "js ''s1''"]
      encodeServerCandidates_rendering [of "[js ''s1'', [0xDE00, 0xD83D]]" "js ''s1''"]
    by blast
qed

lemma set_join: "set (join xs sep) \<subseteq> (\<Union>x \<in> set xs. set x) \<union> set sep"
  by (induction xs sep rule: join.induct) auto

lemma encodeEntity_sigils:
  "encodeEntity (js ''!'' @ rest) = Inr (js ''roomid/'' @ rest)"
  "encodeEntity (js ''#'' @ rest) = Inr (js ''r/'' @ rest)"
  "encodeEntity (js ''@'' @ rest) = Inr (js ''u/'' @ rest)"
  "encodeEntity (js ''$'' @ rest) = Inr (js ''e/'' @ rest)"
  by (simp_all add: encodeEntity_def charAt_def js_def)

lemma plain_candidates_query:
  assumes "list_all plainCandidate cands"
  shows "\<exists>q. encodeServerCandidates (Some cands) = Inr q \<and>
           of_char CHR ''/'' \<notin> set q \<and>
           (\<forall>a. of_char CHR ''?'' \<notin> set a \<longrightarrow> idAndQuery (a @ q) = (a, snd (idAndQuery (a @ q)))) \<and>
           (\<forall>a. of_char CHR ''?'' \<notin> set a \<longrightarrow> parseVia (snd (idAndQuery (a @ q))) = cands)"
proof (cases "cands = []")
  case True
  have "parseVia [] = []" by (simp add: parseVia_def splitVia_def)
  then show ?thesis
    using True by (simp add: encodeServerCandidates_def idAndQuery_plain)
next
  case False
  let ?v = "js ''via='' @ join cands (js ''&via='')"
  have un: "\<forall>c \<in> set cands. c \<noteq> [] \<and> (\<forall>x \<in> set c. isUnescaped x)"
    using assms by (auto simp: list_all_iff plainCandidate_def)
  then have "list_all (list_all isUnescaped) cands"
    by (simp add: list_all_iff)
  then have m: "mapE encodeURIComponent cands = Inr cands"
    by (rule mapE_unescaped)
  have q: "encodeServerCandidates (Some cands) = Inr (js ''?'' @ ?v)"
    using False m by (simp add: encodeServerCandidates_def js_def)
  have chars: "set ?v \<subseteq> (\<Union>c \<in> set cands. set c) \<union> set (js ''&via='')"
    using set_join [of cands "js ''&via=''"] by (auto simp: js_def)
  have res: "of_char CHR ''/'' \<notin> set ?v \<and> of_char CHR ''?'' \<notin> set ?v"
  proof -
    have "of_char CHR ''/'' \<notin> set (js ''&via='') \<and> of_char CHR ''?'' \<notin> set (js ''&via='')"
      by (simp add: js_def)
    moreover have "\<forall>c \<in> set cands. of_char CHR ''/'' \<notin> set c \<and> of_char CHR ''?'' \<notin> set c"
      using un isUnescaped_not_reserved by blast
    ultimately show ?thesis using chars by blast
  qed
  have pv: "parseVia ?v = cands"
  proof (rule parseVia_rendered)
    show "\<forall>e \<in> set cands. e \<noteq> [] \<and> of_char CHR ''='' \<notin> set e \<and> of_char CHR ''&'' \<notin> set e"
      using un isUnescaped_not_reserved by blast
    show "cands \<noteq> []" by (rule False)
  qed
  have iq: "idAndQuery (a @ js ''?'' @ ?v) = (a, ?v)" if "of_char CHR ''?'' \<notin> set a" for a
    using that res by (simp add: idAndQuery_query)
  have sl: "of_char CHR ''/'' \<notin> set (js ''?'' @ ?v)"
    using res by (simp add: js_def)
  show ?thesis
    using q sl iq pv by (intro exI [of _ "js ''?'' @ ?v"]) (simp del: append_assoc)
qed

text \<open>
  C1, as stated, fails: a candidate with a reserved character is rendered
  percent-encoded and parsed back without decoding.
\<close>

theorem roundtrip_counterexample:
  "forRoom (js ''#room:example.org'') (Some [js ''example.org:8448'']) =
     Inr (js ''matrix:r/room:example.org?via=example.org%3A8448'') \<and>
   parsePermalink (js ''matrix:r/room:example.org?via=example.org%3A8448'') \<noteq>
     Inr (Room (js ''#room:example.org'') [js ''example.org:8448''])"
  by code_simp

text \<open>
  C1, amended: parsing the rendered permalink gives the parts back, server candidates
  in the same order, when the user id has no \<open>/\<close> after its \<open>@\<close>; for \<open>forRoom\<close>,
  when the room id or alias has no \<open>/\<close> and no \<open>?\<close> after its sigil; for \<open>forEvent\<close>,
  when the room id or alias has no \<open>/\<close> after its sigil and the event id no \<open>?\<close>
  after its \<open>$\<close>; and, for both, when every candidate is non-empty and made of
  unreserved characters only.
\<close>

theorem roundtrip:
  "(of_char CHR ''/'' \<notin> set user \<longrightarrow>
      (\<exists>url. forUser (js ''@'' @ user) = Inr url \<and>
             parsePermalink url = Inr (User (js ''@'' @ user)))) \<and>
   ((sigil = js ''!'' \<or> sigil = js ''#'') \<and>
      of_char CHR ''/'' \<notin> set room \<and> of_char CHR ''?'' \<notin> set room \<and>
      list_all plainCandidate cands \<longrightarrow>
      (\<exists>url. forRoom (sigil @ room) (Some cands) = Inr url \<and>
             parsePermalink url = Inr (Room (sigil @ room) cands))) \<and>
   ((sigil = js ''!'' \<or> sigil = js ''#'') \<and>
      of_char CHR ''/'' \<notin> set room \<and> of_char CHR ''?'' \<notin> set evt \<and>
      list_all plainCandidate cands \<longrightarrow>
      (\<exists>url. forEvent (sigil @ room) (js ''$'' @ evt) (Some cands) = Inr url \<and>
             parsePermalink url = Inr (Event (sigil @ room) (js ''$'' @ evt) cands)))"
proof -
  have u: "\<exists>url. forUser (js ''@'' @ user) = Inr url \<and>
             parsePermalink url = Inr (User (js ''@'' @ user))"
    if h: "of_char CHR ''/'' \<notin> set user"
  proof -
    have "forUser (js ''@'' @ user) = Inr (js ''matrix:'' @ js ''u/'' @ user)"
      by (simp add: forUser_def encodeEntity_sigils)
    moreover have "parsePermalink (js ''matrix:'' @ js ''u/'' @ user) = Inr (User (js ''@'' @ user))"
      unfolding parsePermalink_matrix parts_u
      using h by (simp add: Let_def at_simps js_split_no_sep template_def)
    ultimately show ?thesis by blast
  qed
  have kind: "\<exists>kind. encodeEntity (sigil @ room) = Inr (kind @ js ''/'' @ room) \<and>
                (kind = js ''r'' \<or> kind = js ''roomid'') \<and>
                (if kind = js ''r'' then js ''#'' else js ''!'') = sigil"
    if h: "sigil = js ''!'' \<or> sigil = js ''#''" for room
  proof -
    have "js ''roomid'' \<noteq> js ''r''" by (simp add: js_def)
    moreover have "encodeEntity (js ''!'' @ room) = Inr (js ''roomid'' @ js ''/'' @ room)"
      "encodeEntity (js ''#'' @ room) = Inr (js ''r'' @ js ''/'' @ room)"
      using encodeEntity_sigils(1,2) [of room] by (simp_all add: js_def)
    ultimately show ?thesis using h by auto
  qed
  have r: "\<exists>url. forRoom (sigil @ room) (Some cands) = Inr url \<and>
             parsePermalink url = Inr (Room (sigil @ room) cands)"
    if h: "sigil = js ''!'' \<or> sigil = js ''#''"
      "of_char CHR ''/'' \<notin> set room" "of_char CHR ''?'' \<notin> set room"
      "list_all plainCandidate cands"
  proof -
    obtain kind where k: "encodeEntity (sigil @ room) = Inr (kind @ js ''/'' @ room)"
      "kind = js ''r'' \<or> kind = js ''roomid''"
      "(if kind = js ''r'' then js ''#'' else js ''!'') = sigil"
      using kind [OF h(1)] by blast
    obtain q where q: "encodeServerCandidates (Some cands) = Inr q"
      "of_char CHR ''/'' \<notin> set q"
      "idAndQuery (room @ q) = (room, snd (idAndQuery (room @ q)))"
      "parseVia (snd (idAndQuery (room @ q))) = cands"
      using plain_candidates_query [OF h(4)] h(3) by blast
    have f: "forRoom (sigil @ room) (Some cands) = Inr (js ''matrix:'' @ kind @ js ''/'' @ room @ q)"
      by (simp add: forRoom_def k(1) q(1))
    have "of_char CHR ''/'' \<notin> set (room @ q)"
      using h(2) q(2) by simp
    from parse_room_branch [OF k(2) this]
    have "parsePermalink (js ''matrix:'' @ kind @ js ''/'' @ room @ q) =
            Inr (Room (sigil @ room) cands)"
      unfolding k(3) q(4) using q(3) by (metis fst_conv)
    with f show ?thesis by blast
  qed
  have e: "\<exists>url. forEvent (sigil @ room) (js ''$'' @ evt) (Some cands) = Inr url \<and>
             parsePermalink url = Inr (Event (sigil @ room) (js ''$'' @ evt) cands)"
    if h: "sigil = js ''!'' \<or> sigil = js ''#''"
      "of_char CHR ''/'' \<notin> set room" "of_char CHR ''?'' \<notin> set evt"
      "list_all plainCandidate cands"
  proof -
    obtain kind where k: "encodeEntity (sigil @ room) = Inr (kind @ js ''/'' @ room)"
      "kind = js ''r'' \<or> kind = js ''roomid''"
      "(if kind = js ''r'' then js ''#'' else js ''!'') = sigil"
      using kind [OF h(1)] by blast
    obtain q where q: "encodeServerCandidates (Some cands) = Inr q"
      "idAndQuery (evt @ q) = (evt, snd (idAndQuery (evt @ q)))"
      "parseVia (snd (idAndQuery (evt @ q))) = cands"
      using plain_candidates_query [OF h(4)] h(3) by blast
    have "js ''/'' @ js ''e/'' = js ''/e/''" by (simp add: js_def)
    then have f: "forEvent (sigil @ room) (js ''$'' @ evt) (Some cands) =
                    Inr (js ''matrix:'' @ kind @ js ''/'' @ room @ js ''/e/'' @ evt @ q)"
      by (simp add: forEvent_def k(1) q(1) encodeEntity_sigils)
    from parse_event_branch [OF k(2) h(2), of "evt @ q"]
    have "parsePermalink (js ''matrix:'' @ kind @ js ''/'' @ room @ js ''/e/'' @ evt @ q) =
            Inr (Event (sigil @ room) (js ''$'' @ evt) cands)"
      unfolding k(3) q(3) using q(2) by (metis fst_conv)
    with f show ?thesis by blast
  qed
  from u r e show ?thesis by blast
qed

theorem roundtrip_witness:
  "(\<exists>url. forUser (js ''@alice:example.org'') = Inr url \<and>
          parsePermalink url = Inr (User (js ''@alice:example.org''))) \<and>
   (\<exists>url. forRoom (js ''#room:example.org'') (Some [js ''s1'', js ''s2'']) = Inr url \<and>
          parsePermalink url = Inr (Room (js ''#room:example.org'') [js ''s1'', js ''s2''])) \<and>
   (\<exists>url. forEvent (js ''!roomid:example.org'') (js ''$event:example.org'') (Some []) = Inr url \<and>
          parsePermalink url =
            Inr (Event (js ''!roomid:example.org'') (js ''$event:example.org'') []))"
proof -
  have p: "list_all plainCandidate [js ''s1'', js ''s2'']" "list_all plainCandidate []"
    by (simp_all add: plainCandidate_def isUnescaped_def unescapedSet_def js_def)
  have a: "of_char CHR ''/'' \<notin> set (js ''alice:example.org'')"
    "of_char CHR ''/'' \<notin> set (js ''room:example.org'')"
    "of_char CHR ''?'' \<notin> set (js ''room:example.org'')"
    "of_char CHR ''/'' \<notin> set (js ''roomid:example.org'')"
    "of_char CHR ''?'' \<notin> set (js ''event:example.org'')"
    by (simp_all add: js_def)
  have s: "js ''@'' @ js ''alice:example.org'' = js ''@alice:example.org''"
    "js ''#'' @ js ''room:example.org'' = js ''#room:example.org''"
    "js ''!'' @ js ''roomid:example.org'' = js ''!roomid:example.org''"
    "js ''$'' @ js ''event:example.org'' = js ''$event:example.org''"
    by (simp_all add: js_def)
  show ?thesis
    using roundtrip [of "js ''alice:example.org''" "js ''#''" "js ''room:example.org''"
        "[js ''s1'', js ''s2'']" "js ''event:example.org''"]
      roundtrip [of "js ''alice:example.org''" "js ''!''" "js ''roomid:example.org''"
        "[]" "js ''event:example.org''"]
      p a
    unfolding s by blast
qed

end
